theory Spec2Isabelle
  imports Complex_Main "HOL-Library.Sublist"
begin

section \<open>The file as the handle sees it\<close>

text \<open>
  \<^verbatim>\<open>logtail.py\<close> opens the monitored file with
  \<^verbatim>\<open>open(file_path, 'r', encoding='utf-8', errors='replace')\<close> and drives the handle with
  \<^verbatim>\<open>seek(0, 2)\<close>, \<^verbatim>\<open>seek(0)\<close>, \<open>tell()\<close>, \<open>readline()\<close> and \<open>readlines()\<close>. The file
  belongs to another process, which appends to it or truncates it between any two
  calls of the follower. So every call that reaches the file takes, as an argument, the
  bytes the file holds at the moment of that call.

  The handle is the interpreter's text-mode file object, which is not part of the
  repository. Three things it does are visible in what \<open>tail_file\<close> prints, and the
  model treats them as follows.

  \<^item> It decodes: UTF-8 with \<open>errors='replace'\<close>, and universal newlines, so that a
    carriage return ends a line and is handed out as a line feed. On bytes that are
    7-bit ASCII and not a carriage return, decoding changes nothing and one byte is one
    character. The model covers such bytes only (\<open>plain\<close>); a read that meets other
    bytes has the result \<open>None\<close>, which says nothing about what the code does there.

  \<^item> It reads ahead: a read fetches more than the line asked for, and \<open>readline()\<close>
    serves later lines from what it has fetched without looking at the file again. The
    handle therefore carries the text it has fetched and not yet handed out
    (\<open>pending\<close>). How far a read goes beyond the line is the handle's business; the
    environment supplies it with every read (\<open>read_ahead\<close>).

  \<^item> \<open>tell()\<close> returns a number of the handle's own making. Right after a seek, and on
    plain text, it is the byte offset of the next character \<open>readline()\<close> will hand
    out. After other text it can be a number far beyond any offset. The environment
    says with every \<open>tell()\<close> of the loop whether it reports the offset or which other
    number it returns (\<open>at_tell\<close>).
\<close>

definition newline :: char where
  "newline = CHR 0x0A"

definition carriage_return :: char where
  "carriage_return = CHR 0x0D"

definition plain :: "string \<Rightarrow> bool" where
  "plain s = list_all (\<lambda>ch. (of_char ch :: nat) < 128 \<and> ch \<noteq> carriage_return) s"

text \<open>Python's two handler classes of \<open>tail_file\<close>: \<open>KeyboardInterrupt\<close>, and
  \<open>Exception\<close> with the text of \<open>str(e)\<close>.\<close>

datatype exn = KeyboardInterrupt | Exception string

text \<open>What the program does to the outside: \<open>print(line, end='')\<close> on standard output,
  \<open>print(msg, file=sys.stderr)\<close> with the message as passed to \<open>print\<close>, and
  \<open>time.sleep(interval)\<close>. (\<open>sys.stdout.flush()\<close> changes no content and is left out.)
  The program has no call that writes to the monitored file.\<close>

datatype event = Stdout string | Stderr string | Sleep real

text \<open>The open handle: the byte offset of the next character to hand out, and the text
  fetched from the file behind that offset and not yet handed out.\<close>

record handle =
  offset :: nat
  pending :: string

text \<open>The state of a session as seen from outside: still in the \<open>while True\<close> loop
  with the handle in some state, or left through \<open>sys.exit(code)\<close>.\<close>

datatype outcome = Running handle | Exit int

text \<open>One line of a text: up to and including the first newline, or everything when
  there is none, and nothing of the empty text.\<close>

fun readline_str :: "string \<Rightarrow> string" where
  "readline_str [] = []"
| "readline_str (c # cs) = (if c = newline then [c] else c # readline_str cs)"

lemma readline_str_empty_iff: "readline_str s = [] \<longleftrightarrow> s = []"
  by (cases s) auto

lemma length_readline_str_le: "length (readline_str s) \<le> length s"
  by (induction s) auto

lemma readline_str_take: "take (length (readline_str s)) s = readline_str s"
  by (induction s) auto

text \<open>\<open>readline()\<close>. When the pending text holds a whole line, that line is handed out
  and the file is not looked at. Otherwise the handle reads on from where its fetching
  stopped, up to the first newline or to the end of the file, hands out the line (at the
  end of the file: whatever is left, terminated or not, possibly nothing) and keeps what
  it has fetched beyond the line.\<close>

definition readline ::
  "handle \<Rightarrow> (exn + string) \<Rightarrow> nat \<Rightarrow> (exn + (string \<times> handle)) option" where
  "readline h rd ahead =
     (if newline \<in> set (pending h) then
        (let line = readline_str (pending h)
         in Some (Inr (line, \<lparr> offset = offset h + length line,
                                pending = drop (length line) (pending h) \<rparr>)))
      else
        (case rd of
           Inl e \<Rightarrow> Some (Inl e)
         | Inr content \<Rightarrow>
             (let fresh = drop (offset h + length (pending h)) content in
              if \<not> plain fresh then None
              else
                (let avail = pending h @ fresh;
                     line = readline_str avail
                 in Some (Inr (line, \<lparr> offset = offset h + length line,
                                        pending = take ahead (drop (length line) avail) \<rparr>))))))"

text \<open>The lines of a text: \<open>readline_str\<close> repeated until nothing is left.\<close>

function readlines_str :: "string \<Rightarrow> string list" where
  "readlines_str s =
     (if s = [] then []
      else readline_str s # readlines_str (drop (length (readline_str s)) s))"
  by pat_completeness auto
termination
proof (relation "measure length")
  show "wf (measure length)" by simp
next
  fix s :: string
  assume "s \<noteq> []"
  then have "0 < length (readline_str s)"
    by (simp add: readline_str_empty_iff)
  with \<open>s \<noteq> []\<close> show "(drop (length (readline_str s)) s, s) \<in> measure length"
    by (cases s) auto
qed

declare readlines_str.simps [simp del]

text \<open>\<open>readlines()\<close>: everything from the handle's position to the end of the file, as
  lines. It always reads the file, and leaves nothing pending.\<close>

definition readlines ::
  "handle \<Rightarrow> (exn + string) \<Rightarrow> (exn + (string list \<times> handle)) option" where
  "readlines h rd =
     (case rd of
        Inl e \<Rightarrow> Some (Inl e)
      | Inr content \<Rightarrow>
          (let fresh = drop (offset h + length (pending h)) content in
           if \<not> plain fresh then None
           else
             (let avail = pending h @ fresh
              in Some (Inr (readlines_str avail,
                            \<lparr> offset = offset h + length avail, pending = [] \<rparr>)))))"

text \<open>\<^verbatim>\<open>seek(0, 2)\<close> drops what is pending and puts the handle at the size of the file;
  \<^verbatim>\<open>seek(0)\<close> drops it and puts the handle at the start. Right after either, \<open>tell()\<close>
  is the offset.\<close>

definition seek_end :: "string \<Rightarrow> handle" where
  "seek_end content = \<lparr> offset = length content, pending = [] \<rparr>"

definition seek_start :: handle where
  "seek_start = \<lparr> offset = 0, pending = [] \<rparr>"

text \<open>\<open>tell()\<close> at the top of the loop: the offset, or the other number the handle
  returns.\<close>

definition tell :: "handle \<Rightarrow> nat option \<Rightarrow> nat" where
  "tell h t = (case t of None \<Rightarrow> offset h | Some cookie \<Rightarrow> cookie)"

text \<open>The slice \<open>xs[start:]\<close> of Python: a negative start counts from the end, and a
  start outside the list is clamped to it.\<close>

definition slice_from :: "int \<Rightarrow> 'a list \<Rightarrow> 'a list" where
  "slice_from start xs =
     (let n = int (length xs);
          i = (if start < 0 then max 0 (n + start) else min start n)
      in drop (nat i) xs)"

section \<open>The environment of a session\<close>

text \<open>
  Each call that touches the file system either succeeds, seeing the file's bytes at that
  moment, or raises. One iteration of the loop calls \<open>tell()\<close>, \<open>readline()\<close>, then
  (when the line is empty) \<^verbatim>\<open>seek(0, 2)\<close>, then (when the file has not shrunk)
  \<open>time.sleep\<close>.
\<close>

record poll_env =
  at_tell :: "nat option"
  at_readline :: "exn + string"
  read_ahead :: nat
  at_seek_end :: "exn + string"
  at_sleep :: "exn option"

record session_env =
  at_exists :: "exn + bool"
  at_open :: "exn option"
  at_first_seek :: "exn + string"
  at_readlines :: "exn + string"
  polls :: "poll_env list"

section \<open>tail\_file\<close>

definition not_found_msg :: "string \<Rightarrow> string" where
  "not_found_msg filename = ''Error: File '' @ [CHR 0x27] @ filename @ [CHR 0x27] @ '' not found''"

definition monitoring_msg :: "string \<Rightarrow> string" where
  "monitoring_msg filename =
     ''==> Monitoring '' @ filename @ '' for changes (Ctrl+C to stop) <==''"

definition truncated_msg :: string where
  "truncated_msg = newline # ''==> File truncated, restarting from beginning <==''"

definition stopped_msg :: string where
  "stopped_msg = newline # ''==> Monitoring stopped <==''"

definition error_msg :: "string \<Rightarrow> string" where
  "error_msg e = ''Error: '' @ e"

text \<open>Lines 41 to 50: seek to the end, and when \<open>lines > 0\<close> rewind, read every line
  and print the slice \<open>all_lines[-lines:]\<close>. The result is the output and the state the
  handle is left in.\<close>

definition initial_window ::
  "int \<Rightarrow> (exn + string) \<Rightarrow> (exn + string) \<Rightarrow> (exn + (event list \<times> handle)) option" where
  "initial_window lines sk rd =
     (case sk of
        Inl e \<Rightarrow> Some (Inl e)
      | Inr c0 \<Rightarrow>
          (let h0 = seek_end c0;
               file_size = offset h0
           in
           if lines > 0 then
             (case readlines seek_start rd of
                None \<Rightarrow> None
              | Some (Inl e) \<Rightarrow> Some (Inl e)
              | Some (Inr (all_lines, h1)) \<Rightarrow>
                  Some (Inr (map Stdout (slice_from (- lines) all_lines), h1)))
           else Some (Inr ([], h0))))"

text \<open>Lines 57 to 74: one iteration of the \<open>while True\<close> loop.\<close>

definition poll ::
  "real \<Rightarrow> handle \<Rightarrow> poll_env \<Rightarrow> (exn + (event list \<times> handle)) option" where
  "poll interval h env =
     (let current_position = tell h (at_tell env) in
      case readline h (at_readline env) (read_ahead env) of
        None \<Rightarrow> None
      | Some (Inl e) \<Rightarrow> Some (Inl e)
      | Some (Inr (line, h1)) \<Rightarrow>
          if line \<noteq> [] then Some (Inr ([Stdout line], h1))
          else
            (case at_seek_end env of
               Inl e \<Rightarrow> Some (Inl e)
             | Inr content2 \<Rightarrow>
                 (let h2 = seek_end content2;
                      new_size = offset h2
                  in
                  if new_size < current_position
                  then Some (Inr ([Stderr truncated_msg], seek_start))
                  else
                    (case at_sleep env of
                       Some e \<Rightarrow> Some (Inl e)
                     | None \<Rightarrow> Some (Inr ([Sleep interval], h2))))))"

text \<open>The loop never returns by itself. It is run here over the iterations the
  environment has supplied so far: the result is the output up to that point and either
  the exception that left the loop or the state the handle has reached.\<close>

fun follow ::
  "real \<Rightarrow> handle \<Rightarrow> poll_env list \<Rightarrow> (event list \<times> (exn + handle)) option" where
  "follow interval h [] = Some ([], Inr h)"
| "follow interval h (e # es) =
     (case poll interval h e of
        None \<Rightarrow> None
      | Some (Inl x) \<Rightarrow> Some ([], Inl x)
      | Some (Inr (out, h')) \<Rightarrow>
          (case follow interval h' es of
             None \<Rightarrow> None
           | Some (out', r) \<Rightarrow> Some (out @ out', r)))"

text \<open>The body of the \<open>try\<close>. \<open>sys.exit(1)\<close> for a missing file raises
  \<open>SystemExit\<close>, which neither handler catches: it is the result \<open>Inr (Exit 1)\<close>.\<close>

definition body ::
  "string \<Rightarrow> real \<Rightarrow> int \<Rightarrow> session_env \<Rightarrow> (event list \<times> (exn + outcome)) option" where
  "body filename interval lines env =
     (case at_exists env of
        Inl e \<Rightarrow> Some ([], Inl e)
      | Inr False \<Rightarrow> Some ([Stderr (not_found_msg filename)], Inr (Exit 1))
      | Inr True \<Rightarrow>
          (case at_open env of
             Some e \<Rightarrow> Some ([], Inl e)
           | None \<Rightarrow>
               (case initial_window lines (at_first_seek env) (at_readlines env) of
                  None \<Rightarrow> None
                | Some (Inl e) \<Rightarrow> Some ([], Inl e)
                | Some (Inr (out, h)) \<Rightarrow>
                    (case follow interval h (polls env) of
                       None \<Rightarrow> None
                     | Some (out', r) \<Rightarrow>
                         Some (out @ [Stderr (monitoring_msg filename)] @ out',
                               case r of Inl e \<Rightarrow> Inl e | Inr h' \<Rightarrow> Inr (Running h'))))))"

definition tail_file ::
  "string \<Rightarrow> real \<Rightarrow> int \<Rightarrow> session_env \<Rightarrow> (event list \<times> outcome) option" where
  "tail_file filename interval lines env =
     (case body filename interval lines env of
        None \<Rightarrow> None
      | Some (out, Inr r) \<Rightarrow> Some (out, r)
      | Some (out, Inl KeyboardInterrupt) \<Rightarrow> Some (out @ [Stderr stopped_msg], Exit 0)
      | Some (out, Inl (Exception msg)) \<Rightarrow> Some (out @ [Stderr (error_msg msg)], Exit 1))"

section \<open>main\<close>





section \<open>Vocabulary of the properties\<close>

text \<open>An iteration in which no call raises and \<open>tell()\<close> reports the offset:
  \<open>readline()\<close> sees \<open>c1\<close> and fetches \<open>k\<close> characters beyond the line, and the size
  check sees \<open>c2\<close>. In \<open>quiet c k\<close> the file does not change during the iteration.\<close>

definition seen :: "string \<Rightarrow> nat \<Rightarrow> string \<Rightarrow> poll_env" where
  "seen c1 k c2 =
     \<lparr> at_tell = None, at_readline = Inr c1, read_ahead = k, at_seek_end = Inr c2,
       at_sleep = None \<rparr>"

definition quiet :: "string \<Rightarrow> nat \<Rightarrow> poll_env" where
  "quiet c k = seen c k c"

text \<open>A handle that has handed out everything it has fetched.\<close>

definition at_offset :: "nat \<Rightarrow> handle" where
  "at_offset n = \<lparr> offset = n, pending = [] \<rparr>"

text \<open>How far the handle has fetched.\<close>

definition fetched :: "handle \<Rightarrow> nat" where
  "fetched h = offset h + length (pending h)"

text \<open>The handle agrees with the file: it stands inside the file, and what it has
  pending is what the file holds there.\<close>

definition agrees :: "handle \<Rightarrow> string \<Rightarrow> bool" where
  "agrees h c = (offset h \<le> length c \<and> prefix (pending h) (drop (offset h) c))"

text \<open>Everything written to standard output, concatenated.\<close>

fun stdout_text :: "event list \<Rightarrow> string" where
  "stdout_text [] = []"
| "stdout_text (Stdout s # evs) = s @ stdout_text evs"
| "stdout_text (_ # evs) = stdout_text evs"

text \<open>The file only grows: each text is the one before it with something appended.\<close>

fun append_only :: "string \<Rightarrow> string list \<Rightarrow> bool" where
  "append_only c [] = True"
| "append_only c (c' # cs) = (prefix c c' \<and> append_only c' cs)"

text \<open>A run of iterations in each of which the file does not change: the text each
  iteration sees, and how far its read goes beyond the line.\<close>

definition quiets :: "(string \<times> nat) list \<Rightarrow> poll_env list" where
  "quiets cks = map (\<lambda>(c, k). quiet c k) cks"

text \<open>The words of the specification: the content up to the last newline-terminated
  line, that is, the text with everything after its last newline removed.\<close>

definition complete_prefix :: "string \<Rightarrow> string" where
  "complete_prefix s = rev (dropWhile (\<lambda>c. c \<noteq> newline) (rev s))"

text \<open>The words of the specification. The lines of a text, each ending with its
  newline, a tail without newline being the last line; the complete lines of a text are
  the lines of its part up to the last newline; the last \<open>n\<close> of a list are what is left
  when all but \<open>n\<close> are dropped.\<close>

fun lines_of :: "string \<Rightarrow> string list" where
  "lines_of [] = []"
| "lines_of (c # cs) =
     (if c = newline then [c] # lines_of cs
      else (case lines_of cs of [] \<Rightarrow> [[c]] | l # ls \<Rightarrow> (c # l) # ls))"

definition complete_lines :: "string \<Rightarrow> string list" where
  "complete_lines s = lines_of (complete_prefix s)"

definition last_n :: "nat \<Rightarrow> 'a list \<Rightarrow> 'a list" where
  "last_n n xs = drop (length xs - n) xs"

text \<open>An effect that is a write to standard output.\<close>

fun is_stdout :: "event \<Rightarrow> bool" where
  "is_stdout (Stdout s) = True"
| "is_stdout _ = False"





section \<open>Basic facts\<close>

lemma readlines_str_Nil: "readlines_str [] = []"
  by (simp add: readlines_str.simps)

lemma readlines_str_Cons:
  "s \<noteq> [] \<Longrightarrow>
   readlines_str s = readline_str s # readlines_str (drop (length (readline_str s)) s)"
  by (subst readlines_str.simps) simp

lemma concat_readlines_str: "concat (readlines_str s) = s"
proof (induction s rule: readlines_str.induct)
  case (1 s)
  show ?case
  proof (cases "s = []")
    case True
    then show ?thesis by (simp add: readlines_str_Nil)
  next
    case False
    have "concat (readlines_str s) =
          readline_str s @ concat (readlines_str (drop (length (readline_str s)) s))"
      using False by (simp add: readlines_str_Cons)
    also have "\<dots> = readline_str s @ drop (length (readline_str s)) s"
      using "1.IH" [OF False] by simp
    also have "\<dots> = take (length (readline_str s)) s @ drop (length (readline_str s)) s"
      by (simp add: readline_str_take)
    also have "\<dots> = s" by simp
    finally show ?thesis .
  qed
qed


lemma plain_append: "plain (xs @ ys) \<longleftrightarrow> plain xs \<and> plain ys"
  by (simp add: plain_def)

lemma plain_drop: "plain s \<Longrightarrow> plain (drop n s)"
  unfolding plain_def list_all_iff by (auto dest: in_set_dropD)


lemma plain_prefix: "prefix c d \<Longrightarrow> plain d \<Longrightarrow> plain c"
  by (auto simp: prefix_def plain_append)

section \<open>Reading from a handle that agrees with the file\<close>

lemma readline_str_append_newline:
  "newline \<in> set p \<Longrightarrow> readline_str (p @ r) = readline_str p"
  by (induction p) auto

lemma agrees_split:
  "agrees h c \<Longrightarrow> drop (offset h) c = pending h @ drop (fetched h) c"
proof -
  assume "agrees h c"
  then have "prefix (pending h) (drop (offset h) c)" by (simp add: agrees_def)
  then obtain r where r: "drop (offset h) c = pending h @ r" by (auto simp: prefix_def)
  then have "drop (length (pending h)) (drop (offset h) c) = r" by simp
  then have "r = drop (fetched h) c" by (simp add: fetched_def add.commute)
  with r show ?thesis by simp
qed

lemma agrees_prefix: "agrees h c \<Longrightarrow> prefix c d \<Longrightarrow> agrees h d"
proof -
  assume a: "agrees h c" and p: "prefix c d"
  from p obtain t where d: "d = c @ t" by (auto simp: prefix_def)
  from a have le: "offset h \<le> length c" and pre: "prefix (pending h) (drop (offset h) c)"
    by (simp_all add: agrees_def)
  have "drop (offset h) d = drop (offset h) c @ t" using le d by simp
  then have "prefix (drop (offset h) c) (drop (offset h) d)" by simp
  with pre have "prefix (pending h) (drop (offset h) d)" by (rule prefix_order.trans)
  then show ?thesis using le d by (simp add: agrees_def)
qed

lemma agrees_at_offset: "n \<le> length c \<Longrightarrow> agrees (at_offset n) c"
  by (simp add: agrees_def at_offset_def)

lemma agrees_at_end: "agrees h c \<Longrightarrow> offset h = length c \<Longrightarrow> h = at_offset (length c)"
  by (cases h) (simp add: agrees_def at_offset_def)

lemma readline_str_rest:
  "readline_str (drop pos c) @ drop (pos + length (readline_str (drop pos c))) c = drop pos c"
proof -
  have split: "readline_str s @ drop (length (readline_str s)) s = s" for s :: string
    using append_take_drop_id [of "length (readline_str s)" s]
    by (simp only: readline_str_take)
  show ?thesis
    using split [of "drop pos c"] by (simp add: add.commute)
qed

lemma readline_str_drop_bound:
  "pos + length (readline_str (drop pos c)) \<le> max pos (length c)"
  using length_readline_str_le [of "drop pos c"] by simp

lemma readline_str_pos:
  "pos < length c \<Longrightarrow> 0 < length (readline_str (drop pos c))"
  by (simp add: readline_str_empty_iff)

lemma readline_agrees:
  assumes "agrees h c" and "plain c"
  shows "\<exists>h'. readline h (Inr c) k =
                 Some (Inr (readline_str (drop (offset h) c), h')) \<and>
               agrees h' c \<and>
               offset h' = offset h + length (readline_str (drop (offset h) c))"
proof -
  let ?o = "offset h" and ?p = "pending h"
  let ?l = "readline_str (drop ?o c)"
  have le: "?o \<le> length c" using assms(1) by (simp add: agrees_def)
  have split: "drop ?o c = ?p @ drop (fetched h) c" using assms(1) by (rule agrees_split)
  have bound: "?o + length ?l \<le> length c"
    using readline_str_drop_bound [of ?o c] le by simp
  have rest: "drop (?o + length ?l) c = drop (length ?l) (drop ?o c)"
    by (simp add: add.commute)
  show ?thesis
  proof (cases "newline \<in> set ?p")
    case True
    have l: "readline_str ?p = ?l"
      using True split by (simp add: readline_str_append_newline)
    have lp: "length ?l \<le> length ?p"
      using length_readline_str_le [of ?p] l by simp
    let ?h' = "\<lparr> offset = ?o + length ?l, pending = drop (length ?l) ?p \<rparr>"
    have r: "readline h (Inr c) k = Some (Inr (?l, ?h'))"
      using True l by (simp add: readline_def Let_def)
    have "drop (length ?l) (drop ?o c) = drop (length ?l) ?p @ drop (fetched h) c"
      using split lp by simp
    then have "prefix (drop (length ?l) ?p) (drop (?o + length ?l) c)"
      using rest by simp
    then have "agrees ?h' c" using bound by (simp add: agrees_def)
    then show ?thesis using r by auto
  next
    case False
    let ?fresh = "drop (?o + length ?p) c"
    have pf: "plain ?fresh" using assms(2) by (rule plain_drop)
    have avail: "?p @ ?fresh = drop ?o c" using split by (simp add: fetched_def)
    let ?h' = "\<lparr> offset = ?o + length ?l,
                  pending = take k (drop (length ?l) (drop ?o c)) \<rparr>"
    have r: "readline h (Inr c) k = Some (Inr (?l, ?h'))"
      using False pf avail by (simp add: readline_def Let_def)
    have "prefix (take k (drop (length ?l) (drop ?o c))) (drop (?o + length ?l) c)"
      unfolding rest by (rule take_is_prefix)
    then have "agrees ?h' c" using bound by (simp add: agrees_def)
    then show ?thesis using r by auto
  qed
qed

section \<open>One iteration on an unchanged file\<close>

lemma poll_quiet_line:
  assumes "agrees h c" and "plain c" and "offset h < length c"
  shows "\<exists>h'. poll interval h (quiet c k) =
                 Some (Inr ([Stdout (readline_str (drop (offset h) c))], h')) \<and>
               agrees h' c \<and>
               offset h' = offset h + length (readline_str (drop (offset h) c))"
proof -
  from readline_agrees [OF assms(1,2), of k] obtain h' where
    r: "readline h (Inr c) k = Some (Inr (readline_str (drop (offset h) c), h'))" and
    a: "agrees h' c" and
    o: "offset h' = offset h + length (readline_str (drop (offset h) c))"
    by blast
  have "readline_str (drop (offset h) c) \<noteq> []"
    using assms(3) by (simp add: readline_str_empty_iff)
  then have "poll interval h (quiet c k) =
             Some (Inr ([Stdout (readline_str (drop (offset h) c))], h'))"
    using r by (simp add: poll_def quiet_def seen_def)
  then show ?thesis using a o by blast
qed

lemma poll_quiet_idle:
  assumes "agrees h c" and "plain c" and "offset h = length c"
  shows "poll interval h (quiet c k) = Some (Inr ([Sleep interval], at_offset (length c)))"
proof -
  from readline_agrees [OF assms(1,2), of k] obtain h' where
    r: "readline h (Inr c) k = Some (Inr (readline_str (drop (offset h) c), h'))"
    by blast
  have "readline_str (drop (offset h) c) = []" using assms(3) by simp
  then show ?thesis
    using r assms(3)
    by (simp add: poll_def quiet_def seen_def tell_def seek_end_def at_offset_def)
qed

lemma drop_take_join:
  "a \<le> b \<Longrightarrow> drop a (take b ys) @ drop b ys = drop a ys"
proof -
  assume ab: "a \<le> b"
  have tail: "drop (a - length (take b ys)) (drop b ys) = drop b ys"
  proof (cases "b \<le> length ys")
    case True
    then have "a - length (take b ys) = 0" using ab by simp
    then show ?thesis by simp
  next
    case False
    then show ?thesis by simp
  qed
  have "drop a (take b ys @ drop b ys) =
        drop a (take b ys) @ drop (a - length (take b ys)) (drop b ys)"
    by (rule drop_append)
  then have "drop a ys = drop a (take b ys) @ drop b ys"
    by (simp only: append_take_drop_id tail)
  then show ?thesis by (rule sym)
qed

lemma segment_join:
  "a \<le> b \<Longrightarrow> b \<le> n \<Longrightarrow> drop a (take b xs) @ drop b (take n xs) = drop a (take n xs)"
proof -
  assume ab: "a \<le> b" and bn: "b \<le> n"
  have "take b (take n xs) = take b xs" using bn by (simp add: min_def)
  then show ?thesis
    using drop_take_join [OF ab, of "take n xs"] by simp
qed

lemma readline_segment:
  "pos < length c \<Longrightarrow> prefix c d \<Longrightarrow>
   readline_str (drop pos c) = drop pos (take (pos + length (readline_str (drop pos c))) d)"
proof -
  assume lt: "pos < length c" and pre: "prefix c d"
  let ?l = "readline_str (drop pos c)"
  have le: "pos + length ?l \<le> length c"
    using readline_str_drop_bound [of pos c] lt by simp
  obtain t where d: "d = c @ t" using pre by (auto simp: prefix_def)
  have "?l = take (length ?l) (drop pos c)" by (simp add: readline_str_take)
  also have "\<dots> = drop pos (take (pos + length ?l) c)"
    by (simp add: drop_take add.commute)
  also have "take (pos + length ?l) c = take (pos + length ?l) d"
    using le d by simp
  finally show ?thesis .
qed

lemma poll_quiet_step:
  assumes "agrees h c" and "plain c" and "prefix c d"
  shows "\<exists>out h'. poll interval h (quiet c k) = Some (Inr (out, h')) \<and>
           agrees h' c \<and> offset h \<le> offset h' \<and>
           (offset h < length c \<longrightarrow> offset h < offset h') \<and>
           stdout_text out = drop (offset h) (take (offset h') d) \<and>
           Stderr truncated_msg \<notin> set out"
proof (cases "offset h < length c")
  case True
  let ?l = "readline_str (drop (offset h) c)"
  from poll_quiet_line [OF assms(1,2) True, of interval k] obtain h' where
    p: "poll interval h (quiet c k) = Some (Inr ([Stdout ?l], h'))" and
    a: "agrees h' c" and o: "offset h' = offset h + length ?l"
    by blast
  have "0 < length ?l" using True by (rule readline_str_pos)
  moreover have "?l = drop (offset h) (take (offset h + length ?l) d)"
    using True assms(3) by (rule readline_segment)
  ultimately show ?thesis using p a o by auto
next
  case False
  with assms(1) have eq: "offset h = length c" by (simp add: agrees_def)
  have "poll interval h (quiet c k) = Some (Inr ([Sleep interval], at_offset (length c)))"
    using assms(1,2) eq by (rule poll_quiet_idle)
  then show ?thesis
    using eq by (simp add: agrees_at_offset) (simp add: at_offset_def)
qed

section \<open>The loop over several iterations\<close>

lemma follow_append:
  "follow interval h (es @ es') =
     (case follow interval h es of
        None \<Rightarrow> None
      | Some (out, Inl x) \<Rightarrow> Some (out, Inl x)
      | Some (out, Inr h') \<Rightarrow>
          (case follow interval h' es' of
             None \<Rightarrow> None
           | Some (out', r) \<Rightarrow> Some (out @ out', r)))"
proof (induction es arbitrary: h)
  case Nil
  show ?case by (simp split: option.split prod.split)
next
  case (Cons e es)
  show ?case
  proof (cases "poll interval h e")
    case None
    then show ?thesis by simp
  next
    case (Some r)
    show ?thesis
    proof (cases r)
      case (Inl x)
      with Some show ?thesis by simp
    next
      case (Inr q)
      obtain out1 h1 where q: "q = (out1, h1)" by (cases q)
      show ?thesis
        using Some Inr q Cons.IH [of h1]
        by (simp split: option.split prod.split sum.split)
    qed
  qed
qed

lemma stdout_text_append: "stdout_text (xs @ ys) = stdout_text xs @ stdout_text ys"
  by (induction xs rule: stdout_text.induct) simp_all

lemma append_only_last: "append_only c cs \<Longrightarrow> prefix c (last (c # cs))"
proof (induction cs arbitrary: c)
  case Nil
  show ?case by simp
next
  case (Cons c' cs)
  then have "prefix c c'" and "prefix c' (last (c' # cs))" by simp_all
  then show ?case by (simp add: prefix_order.trans [of c c'])
qed

lemma follow_quiet_grow:
  "agrees h c \<Longrightarrow> append_only c (map fst cks) \<Longrightarrow> plain (last (c # map fst cks)) \<Longrightarrow>
   \<exists>out h'. follow interval h (quiets cks) = Some (out, Inr h') \<and>
     agrees h' (last (c # map fst cks)) \<and> offset h \<le> offset h' \<and>
     stdout_text out = drop (offset h) (take (offset h') (last (c # map fst cks))) \<and>
     Stderr truncated_msg \<notin> set out"
proof (induction cks arbitrary: c h)
  case Nil
  then show ?case by (simp add: quiets_def)
next
  case (Cons ck cks)
  obtain c' k where ck: "ck = (c', k)" by (cases ck)
  let ?fin = "last (c' # map fst cks)"
  from Cons.prems(2) ck have pre: "prefix c c'" and ao: "append_only c' (map fst cks)"
    by simp_all
  from Cons.prems(3) ck have pf: "plain ?fin" by simp
  have fin: "prefix c' ?fin" using ao by (rule append_only_last)
  have pc: "plain c'" using fin pf by (rule plain_prefix)
  have ag: "agrees h c'" using Cons.prems(1) pre by (rule agrees_prefix)
  from poll_quiet_step [OF ag pc fin, of interval k] obtain out1 h1 where
    p: "poll interval h (quiet c' k) = Some (Inr (out1, h1))" and
    a1: "agrees h1 c'" and b1: "offset h \<le> offset h1" and
    t1: "stdout_text out1 = drop (offset h) (take (offset h1) ?fin)" and
    m1: "Stderr truncated_msg \<notin> set out1"
    by blast
  from Cons.IH [OF a1 ao pf] obtain out2 h2 where
    f: "follow interval h1 (quiets cks) = Some (out2, Inr h2)" and
    a2: "agrees h2 ?fin" and b2: "offset h1 \<le> offset h2" and
    t2: "stdout_text out2 = drop (offset h1) (take (offset h2) ?fin)" and
    m2: "Stderr truncated_msg \<notin> set out2"
    by blast
  have "follow interval h (quiets (ck # cks)) = Some (out1 @ out2, Inr h2)"
    using p f ck by (simp add: quiets_def)
  moreover have "stdout_text (out1 @ out2) = drop (offset h) (take (offset h2) ?fin)"
    using t1 t2 b1 b2 by (simp add: stdout_text_append segment_join)
  ultimately show ?case
    using a2 b1 b2 m1 m2 ck by simp
qed

lemma follow_quiet_drain:
  "agrees h c \<Longrightarrow> plain c \<Longrightarrow> length c - offset h \<le> length ks \<Longrightarrow>
   \<exists>out. follow interval h (map (quiet c) ks) = Some (out, Inr (at_offset (length c))) \<and>
     stdout_text out = drop (offset h) c \<and> Stderr truncated_msg \<notin> set out"
proof (induction ks arbitrary: h)
  case Nil
  then have "offset h = length c" by (simp add: agrees_def)
  with Nil.prems(1) have "h = at_offset (length c)" by (rule agrees_at_end)
  then show ?case by (simp add: at_offset_def)
next
  case (Cons k ks)
  have refl: "prefix c c" by simp
  from poll_quiet_step [OF Cons.prems(1,2) refl, of interval k] obtain out1 h1 where
    p: "poll interval h (quiet c k) = Some (Inr (out1, h1))" and
    a1: "agrees h1 c" and b1: "offset h \<le> offset h1" and
    s1: "offset h < length c \<longrightarrow> offset h < offset h1" and
    t1: "stdout_text out1 = drop (offset h) (take (offset h1) c)" and
    m1: "Stderr truncated_msg \<notin> set out1"
    by blast
  from a1 have "offset h1 \<le> length c" by (simp add: agrees_def)
  with s1 b1 Cons.prems(3) have "length c - offset h1 \<le> length ks"
    by (cases "offset h < length c") auto
  from Cons.IH [OF a1 Cons.prems(2) this] obtain out2 where
    f: "follow interval h1 (map (quiet c) ks) = Some (out2, Inr (at_offset (length c)))" and
    t2: "stdout_text out2 = drop (offset h1) c" and
    m2: "Stderr truncated_msg \<notin> set out2"
    by blast
  have "follow interval h (map (quiet c) (k # ks)) =
        Some (out1 @ out2, Inr (at_offset (length c)))"
    using p f by simp
  moreover have "stdout_text (out1 @ out2) = drop (offset h) c"
    using t1 t2 b1 by (simp add: stdout_text_append drop_take_join)
  ultimately show ?case using m1 m2 by simp
qed

section \<open>A negative count\<close>

lemma seek_end_at_offset: "seek_end c = at_offset (length c)"
  by (simp add: seek_end_def at_offset_def)

lemma seek_start_at_offset: "seek_start = at_offset 0"
  by (simp add: seek_start_def at_offset_def)

lemma initial_window_nonpos:
  "lines \<le> 0 \<Longrightarrow>
   initial_window lines sk rd =
     (case sk of Inl e \<Rightarrow> Some (Inl e) | Inr c \<Rightarrow> Some (Inr ([], at_offset (length c))))"
  by (simp add: initial_window_def seek_end_at_offset split: sum.split)

lemma body_nonpos:
  "lines \<le> 0 \<Longrightarrow> body fn interval lines env = body fn interval 0 env"
proof -
  assume le: "lines \<le> 0"
  have eq: "initial_window lines sk rd = initial_window 0 sk rd" for sk rd
    using le by (simp add: initial_window_nonpos)
  show ?thesis
    unfolding body_def eq by (rule refl)
qed

text \<open>
  C9. For every call of \<open>tail_file\<close> with a negative \<open>lines\<close> argument the initial window
  prints nothing and raises nothing, and the whole session is the session with
  \<open>lines = 0\<close>: the window is guarded by \<open>lines > 0\<close>. The handle is left at the size
  the first seek has seen, whatever \<open>readlines()\<close> would have met.
\<close>

theorem negative_lines_as_zero:
  "lines < 0 \<Longrightarrow>
     initial_window lines (Inr c) rd = Some (Inr ([], at_offset (length c))) \<and>
     initial_window lines sk rd = initial_window 0 sk rd \<and>
     tail_file fn interval lines env = tail_file fn interval 0 env"
proof (intro conjI)
  assume neg: "lines < 0"
  show "initial_window lines (Inr c) rd = Some (Inr ([], at_offset (length c)))"
    using neg by (simp add: initial_window_nonpos)
  show "initial_window lines sk rd = initial_window 0 sk rd"
    using neg by (simp add: initial_window_nonpos)
  have "body fn interval lines env = body fn interval 0 env"
    using neg by (intro body_nonpos) simp
  then show "tail_file fn interval lines env = tail_file fn interval 0 env"
    by (simp add: tail_file_def)
qed

theorem negative_lines_as_zero_witness:
  "(- 3 :: int) < 0 \<and>
   initial_window (- 3) (Inr ''a'') (Inl (Exception ''x'')) = Some (Inr ([], at_offset 1)) \<and>
   initial_window (- 3) (Inr ''a'') (Inl (Exception ''x'')) =
     initial_window 0 (Inr ''a'') (Inl (Exception ''x''))"
  using negative_lines_as_zero [of "- 3" "''a''" "Inl (Exception ''x'')" "Inr ''a''"]
  by (simp add: initial_window_nonpos)

section \<open>Exceptions and exit codes\<close>

lemma follow_raises_at:
  "follow interval h es = Some (out, Inr h') \<Longrightarrow> poll interval h' e = Some (Inl x) \<Longrightarrow>
   follow interval h (es @ e # rest) = Some (out, Inl x)"
  by (simp add: follow_append)

lemma body_poll_raises:
  assumes "at_exists env = Inr True" and "at_open env = None"
    and "initial_window lines (at_first_seek env) (at_readlines env) = Some (Inr (out0, h0))"
    and "polls env = es @ e # rest"
    and "follow interval h0 es = Some (out, Inr h)"
    and "poll interval h e = Some (Inl x)"
  shows "body fn interval lines env =
           Some (out0 @ [Stderr (monitoring_msg fn)] @ out, Inl x)"
proof -
  have "follow interval h0 (polls env) = Some (out, Inl x)"
    using assms(4) follow_raises_at [OF assms(5) assms(6)] by simp
  then show ?thesis
    using assms(1-3) by (simp add: body_def)
qed


lemma tail_file_exception:
  "body fn interval lines env = Some (out, Inl (Exception msg)) \<Longrightarrow>
   tail_file fn interval lines env = Some (out @ [Stderr (error_msg msg)], Exit 1)"
  by (simp add: tail_file_def)

lemma readline_raises:
  "newline \<notin> set (pending h) \<Longrightarrow> readline h (Inl x) k = Some (Inl x)"
  by (simp add: readline_def)

lemma poll_readline_raises_literal:
  "newline \<notin> set (pending h) \<Longrightarrow>
   poll interval h
     \<lparr> at_tell = t, at_readline = Inl x, read_ahead = k, at_seek_end = s, at_sleep = sl \<rparr> =
     Some (Inl x)"
  by (simp add: poll_def readline_raises)

text \<open>
  C4, as the code has it. Every exception other than \<open>KeyboardInterrupt\<close> that a call
  of a poll cycle raises after a successful open ends the session: the loop is left,
  \<open>Error:\<close> and the exception's text are written to standard error, and the process
  exits with code 1. The poll is not tried again and no later poll takes place, whatever
  the file would have held; no kind of error is told from another.
\<close>

theorem poll_exception_ends_session:
  assumes "at_exists env = Inr True" and "at_open env = None"
    and "initial_window lines (at_first_seek env) (at_readlines env) = Some (Inr (out0, h0))"
    and "polls env = es @ e # rest"
    and "follow interval h0 es = Some (out, Inr h)"
    and "poll interval h e = Some (Inl (Exception msg))"
  shows "tail_file fn interval lines env =
           Some (out0 @ [Stderr (monitoring_msg fn)] @ out @ [Stderr (error_msg msg)],
                 Exit 1) \<and>
         tail_file fn interval lines (env\<lparr>polls := es @ [e]\<rparr>) =
           tail_file fn interval lines env"
proof -
  have a: "body fn interval lines env =
           Some (out0 @ [Stderr (monitoring_msg fn)] @ out, Inl (Exception msg))"
    using assms by (rule body_poll_raises)
  have b: "body fn interval lines (env\<lparr>polls := es @ [e]\<rparr>) =
           Some (out0 @ [Stderr (monitoring_msg fn)] @ out, Inl (Exception msg))"
    using assms(1-3) assms(5) assms(6)
    by (intro body_poll_raises [where es = es and e = e and rest = "[]" and h = h
          and ?h0.0 = h0])
       simp_all
  show ?thesis
    using tail_file_exception [OF a] tail_file_exception [OF b] by simp
qed

theorem poll_exception_ends_session_witness:
  "tail_file ''log'' 1 0
     \<lparr> at_exists = Inr True, at_open = None, at_first_seek = Inr (''a'' @ [newline]),
       at_readlines = Inr (''a'' @ [newline]),
       polls = [quiet (''a'' @ [newline]) 0] @
               \<lparr> at_tell = None, at_readline = Inl (Exception ''busy''), read_ahead = 0,
                 at_seek_end = Inr (''a'' @ [newline]), at_sleep = None \<rparr> #
               [quiet (''a'' @ [newline] @ ''b'' @ [newline]) 0] \<rparr> =
     Some ([] @ [Stderr (monitoring_msg ''log'')] @ [Sleep 1] @ [Stderr (error_msg ''busy'')],
           Exit 1)"
proof -
  let ?c = "''a'' @ [newline]"
  let ?e = "\<lparr> at_tell = None, at_readline = Inl (Exception ''busy''), read_ahead = 0,
              at_seek_end = Inr ?c, at_sleep = None \<rparr>"
  let ?env = "\<lparr> at_exists = Inr True, at_open = None, at_first_seek = Inr ?c,
       at_readlines = Inr ?c,
       polls = [quiet ?c 0] @ ?e # [quiet (''a'' @ [newline] @ ''b'' @ [newline]) 0] \<rparr>"
  have pc: "plain ?c" by (simp add: plain_def newline_def carriage_return_def)
  have h1: "at_exists ?env = Inr True" by simp
  have h2: "at_open ?env = None" by simp
  have h3: "initial_window 0 (at_first_seek ?env) (at_readlines ?env) =
            Some (Inr ([], at_offset (length ?c)))"
    by (simp add: initial_window_nonpos)
  have h4: "polls ?env = [quiet ?c 0] @ ?e #
               [quiet (''a'' @ [newline] @ ''b'' @ [newline]) 0]"
    by simp
  have ag: "agrees (at_offset (length ?c)) ?c" by (simp add: agrees_at_offset)
  have h5: "follow 1 (at_offset (length ?c)) [quiet ?c 0] =
            Some ([Sleep 1], Inr (at_offset (length ?c)))"
    using poll_quiet_idle [OF ag pc, of 1 0] by (simp add: at_offset_def)
  have h6: "poll 1 (at_offset (length ?c)) ?e = Some (Inl (Exception ''busy''))"
    by (simp add: poll_readline_raises_literal at_offset_def)
  show ?thesis
    using poll_exception_ends_session [OF h1 h2 h3 h4 h5 h6, of "''log''"]
    by (rule conjunct1)
qed

text \<open>
  C4 as stated fails: the file holds one line, the session starts with \<open>lines = 0\<close>,
  the first poll finds nothing new, and the \<open>readline()\<close> of the second poll raises. A
  third poll would have found the line \<open>b\<close>; the session has exited with code 1 instead.
\<close>

theorem read_error_exits_with_1:
  "tail_file ''log'' 1 0
     \<lparr> at_exists = Inr True, at_open = None, at_first_seek = Inr (''a'' @ [newline]),
       at_readlines = Inr (''a'' @ [newline]),
       polls = [quiet (''a'' @ [newline]) 0,
                \<lparr> at_tell = None, at_readline = Inl (Exception ''busy''), read_ahead = 0,
                  at_seek_end = Inr (''a'' @ [newline]), at_sleep = None \<rparr>,
                quiet (''a'' @ [newline] @ ''b'' @ [newline]) 0] \<rparr> =
     Some ([Stderr (monitoring_msg ''log''), Sleep 1, Stderr (error_msg ''busy'')], Exit 1)"
proof -
  let ?c = "''a'' @ [newline]"
  have pc: "plain ?c" by (simp add: plain_def newline_def carriage_return_def)
  have ag: "agrees (at_offset (length ?c)) ?c" by (simp add: agrees_at_offset)
  have idle: "poll 1 (at_offset (length ?c)) (quiet ?c 0) =
              Some (Inr ([Sleep 1], at_offset (length ?c)))"
    using poll_quiet_idle [OF ag pc, of 1 0] by (simp add: at_offset_def)
  have raise: "poll 1 (at_offset (length ?c))
                 \<lparr> at_tell = None, at_readline = Inl (Exception ''busy''), read_ahead = 0,
                   at_seek_end = Inr ?c, at_sleep = None \<rparr> =
               Some (Inl (Exception ''busy''))"
    by (simp add: poll_readline_raises_literal at_offset_def)
  have iw: "initial_window 0 (Inr ?c) (Inr ?c) = Some (Inr ([], at_offset (length ?c)))"
    by (simp add: initial_window_nonpos)
  show ?thesis
    unfolding tail_file_def body_def
    by (simp add: iw idle raise del: append.simps length_append list.size)
qed

section \<open>The command line\<close>




lemma readlines_whole:
  "plain c \<Longrightarrow> readlines seek_start (Inr c) = Some (Inr (readlines_str c, at_offset (length c)))"
  by (simp add: readlines_def seek_start_def at_offset_def Let_def)

lemma slice_from_negative:
  "0 < lines \<Longrightarrow> slice_from (- lines) xs = drop (length xs - nat lines) xs"
proof -
  assume "0 < lines"
  then have "nat (max 0 (int (length xs) + - lines)) = length xs - nat lines"
    by (simp add: max_def) linarith
  with \<open>0 < lines\<close> show ?thesis
    by (simp add: slice_from_def Let_def)
qed

lemma initial_window_positive:
  "0 < lines \<Longrightarrow> plain c \<Longrightarrow>
   initial_window lines (Inr c0) (Inr c) =
     Some (Inr (map Stdout (drop (length (readlines_str c) - nat lines) (readlines_str c)),
                at_offset (length c)))"
  by (simp add: initial_window_def readlines_whole slice_from_negative)


section \<open>Iterations written out\<close>

lemma readline_at_offset:
  "plain (drop n c) \<Longrightarrow>
   readline (at_offset n) (Inr c) k =
     Some (Inr (readline_str (drop n c),
                \<lparr> offset = n + length (readline_str (drop n c)),
                  pending = take k (drop (length (readline_str (drop n c))) (drop n c)) \<rparr>))"
  by (simp add: readline_def at_offset_def Let_def)

lemma poll_seen_at_offset:
  "plain (drop n c1) \<Longrightarrow>
   poll interval (at_offset n) (seen c1 k c2) =
     (if n < length c1
      then Some (Inr ([Stdout (readline_str (drop n c1))],
                      \<lparr> offset = n + length (readline_str (drop n c1)),
                        pending = take k (drop (length (readline_str (drop n c1)))
                                           (drop n c1)) \<rparr>))
      else if length c2 < n then Some (Inr ([Stderr truncated_msg], at_offset 0))
      else Some (Inr ([Sleep interval], at_offset (length c2))))"
  by (simp add: poll_def readline_at_offset seen_def tell_def seek_end_at_offset
        seek_start_at_offset readline_str_empty_iff)
     (simp add: at_offset_def seek_start_def seek_end_def)

lemma at_offset_literal: "\<lparr> offset = n, pending = [] \<rparr> = at_offset n"
  by (simp add: at_offset_def)

lemma at_offset_eq: "at_offset m = at_offset n \<longleftrightarrow> m = n"
  by (simp add: at_offset_def)

lemmas run_defs =
  quiets_def quiet_def poll_seen_at_offset at_offset_literal at_offset_eq plain_def
  newline_def carriage_return_def

section \<open>Appends\<close>

text \<open>
  C1, as the code has it. For every sequence of appends with no truncation, where the
  text of the file is plain (7-bit ASCII without carriage returns), \<open>tell()\<close> reports
  the offset, and the file does not change between the \<open>readline()\<close> and the size check of
  one iteration, the strings written by the loop, concatenated, are exactly the text of
  the file between the position the loop started at and the position the handle has
  reached: in file order, nothing twice, nothing left out, however far the handle reads
  ahead. An unterminated tail is written as soon as it is read, so the output is not cut
  at the last newline: once the file stays as it is for enough iterations, the output is
  the whole text after the starting position.
\<close>

theorem follow_emits_what_is_appended:
  assumes "agrees h c" and "append_only c (map fst cks)"
    and "plain (last (c # map fst cks))"
  shows "(\<exists>out h'. follow interval h (quiets cks) = Some (out, Inr h') \<and>
            offset h \<le> offset h' \<and> offset h' \<le> length (last (c # map fst cks)) \<and>
            stdout_text out =
              drop (offset h) (take (offset h') (last (c # map fst cks)))) \<and>
         (length (last (c # map fst cks)) - offset h \<le> length ks \<longrightarrow>
            (\<exists>out. follow interval h (quiets cks @ map (quiet (last (c # map fst cks))) ks) =
                     Some (out, Inr (at_offset (length (last (c # map fst cks))))) \<and>
                   stdout_text out = drop (offset h) (last (c # map fst cks))))"
proof (intro conjI impI)
  let ?fin = "last (c # map fst cks)"
  from follow_quiet_grow [OF assms, of interval] obtain out h' where
    f: "follow interval h (quiets cks) = Some (out, Inr h')" and
    a: "agrees h' ?fin" and
    b: "offset h \<le> offset h'" and
    t: "stdout_text out = drop (offset h) (take (offset h') ?fin)"
    by blast
  from a have le: "offset h' \<le> length ?fin" by (simp add: agrees_def)
  show "\<exists>out h'. follow interval h (quiets cks) = Some (out, Inr h') \<and>
          offset h \<le> offset h' \<and> offset h' \<le> length ?fin \<and>
          stdout_text out = drop (offset h) (take (offset h') ?fin)"
    using f b le t by blast
  assume n: "length ?fin - offset h \<le> length ks"
  with b have "length ?fin - offset h' \<le> length ks" by linarith
  from follow_quiet_drain [OF a assms(3) this, of interval] obtain out' where
    f': "follow interval h' (map (quiet ?fin) ks) =
         Some (out', Inr (at_offset (length ?fin)))" and
    t': "stdout_text out' = drop (offset h') ?fin"
    by blast
  have "follow interval h (quiets cks @ map (quiet ?fin) ks) =
        Some (out @ out', Inr (at_offset (length ?fin)))"
    using f f' by (simp add: follow_append)
  moreover have "stdout_text (out @ out') = drop (offset h) ?fin"
    using t t' b by (simp add: stdout_text_append drop_take_join)
  ultimately show "\<exists>out. follow interval h (quiets cks @ map (quiet ?fin) ks) =
                     Some (out, Inr (at_offset (length ?fin))) \<and>
                   stdout_text out = drop (offset h) ?fin"
    by blast
qed

theorem follow_emits_what_is_appended_witness:
  "agrees (at_offset 2) (''a'' @ [newline]) \<and>
   append_only (''a'' @ [newline])
     (map fst [(''a'' @ [newline] @ ''b'', 5), (''a'' @ [newline] @ ''bc'', 0::nat)]) \<and>
   plain (last ((''a'' @ [newline]) #
     map fst [(''a'' @ [newline] @ ''b'', 5), (''a'' @ [newline] @ ''bc'', 0::nat)])) \<and>
   (\<exists>out h'. follow 1 (at_offset 2)
               (quiets [(''a'' @ [newline] @ ''b'', 5), (''a'' @ [newline] @ ''bc'', 0::nat)]) =
              Some (out, Inr h') \<and>
            offset (at_offset 2) \<le> offset h' \<and>
            stdout_text out =
              drop (offset (at_offset 2)) (take (offset h') (last ((''a'' @ [newline]) #
                map fst [(''a'' @ [newline] @ ''b'', 5), (''a'' @ [newline] @ ''bc'', 0::nat)])))) \<and>
   (\<exists>out. follow 1 (at_offset 2)
             (quiets [(''a'' @ [newline] @ ''b'', 5), (''a'' @ [newline] @ ''bc'', 0::nat)] @
              map (quiet (last ((''a'' @ [newline]) #
                map fst [(''a'' @ [newline] @ ''b'', 5), (''a'' @ [newline] @ ''bc'', 0::nat)])))
                [0::nat, 7]) =
            Some (out, Inr (at_offset (length (last ((''a'' @ [newline]) #
                map fst [(''a'' @ [newline] @ ''b'', 5), (''a'' @ [newline] @ ''bc'', 0::nat)]))))) \<and>
          stdout_text out =
            drop (offset (at_offset 2)) (last ((''a'' @ [newline]) #
                map fst [(''a'' @ [newline] @ ''b'', 5), (''a'' @ [newline] @ ''bc'', 0::nat)])))"
proof -
  let ?c = "''a'' @ [newline]"
  let ?cks = "[(''a'' @ [newline] @ ''b'', 5), (''a'' @ [newline] @ ''bc'', 0::nat)]"
  have h1: "agrees (at_offset 2) ?c" by (simp add: agrees_at_offset)
  have h2: "append_only ?c (map fst ?cks)" by simp
  have h3: "plain (last (?c # map fst ?cks))"
    by (simp add: plain_def newline_def carriage_return_def)
  have h4: "length (last (?c # map fst ?cks)) - offset (at_offset 2) \<le> length [0::nat, 7]"
    by (simp add: at_offset_def)
  show ?thesis
    using follow_emits_what_is_appended [OF h1 h2 h3, of 1 "[0::nat, 7]"] h1 h2 h3 h4
    by blast
qed

text \<open>
  C1 as stated fails: the file holds \<open>a\<close> and a newline when the loop starts behind
  them, and \<open>b\<close> is appended without a newline. The loop writes \<open>b\<close>, while the content
  up to the last newline-terminated line has nothing after the starting position.
\<close>

theorem follow_emits_unterminated_tail:
  "append_only (''a'' @ [newline]) [''a'' @ [newline] @ ''b''] \<and>
   follow 1 (at_offset 2) (quiets [(''a'' @ [newline] @ ''b'', 0)]) =
     Some ([Stdout ''b''], Inr (at_offset 3)) \<and>
   stdout_text [Stdout ''b''] \<noteq> drop 2 (complete_prefix (''a'' @ [newline] @ ''b''))"
  by (simp add: run_defs complete_prefix_def)

text \<open>
  The theorem above asks that the file does not change inside an iteration. Without
  that, text is lost: the handle is at 2 behind the line \<open>a\<close>, \<open>readline()\<close> finds
  nothing, the line \<open>b\<close> is appended before \<^verbatim>\<open>seek(0, 2)\<close>, and the seek leaves the
  handle behind it, at 4. The line \<open>b\<close> is never written.
\<close>

lemma follow_skips_text_appended_inside_poll:
  "follow 1 (at_offset 2)
     [seen (''a'' @ [newline]) 0 (''a'' @ [newline] @ ''b'' @ [newline]),
      quiet (''a'' @ [newline] @ ''b'' @ [newline]) 0] =
     Some ([Sleep 1, Sleep 1], Inr (at_offset 4))"
  by (simp add: run_defs)

section \<open>Partial lines\<close>






section \<open>Truncation\<close>


lemma poll_pending_line:
  "newline \<in> set (pending h) \<Longrightarrow>
   poll interval h e =
     Some (Inr ([Stdout (readline_str (pending h))],
                \<lparr> offset = offset h + length (readline_str (pending h)),
                  pending = drop (length (readline_str (pending h))) (pending h) \<rparr>))"
proof -
  assume nl: "newline \<in> set (pending h)"
  then have "pending h \<noteq> []" by auto
  then have "readline_str (pending h) \<noteq> []" by (simp add: readline_str_empty_iff)
  then show ?thesis using nl by (simp add: poll_def readline_def Let_def)
qed






text \<open>
  Lines the handle has fetched before a truncation come first. The file holds the lines
  \<open>a\<close>, \<open>b\<close> and \<open>c\<close>; the first read fetches all three and hands out \<open>a\<close>; the file
  is then cut to the single character \<open>x\<close>. The loop writes \<open>b\<close> and \<open>c\<close>, which
  the file no longer holds, before it finds the file shorter than the cursor and writes
  the marker.
\<close>

lemma fetched_lines_before_marker:
  "follow 1 (at_offset 0)
     [quiet (''a'' @ [newline] @ ''b'' @ [newline] @ ''c'' @ [newline]) 8192,
      quiet ''x'' 8192, quiet ''x'' 8192, quiet ''x'' 8192, quiet ''x'' 8192] =
     Some ([Stdout (''a'' @ [newline]), Stdout (''b'' @ [newline]), Stdout (''c'' @ [newline]),
            Stderr truncated_msg, Stdout ''x''], Inr (at_offset 1))"
proof -
  let ?abc = "''a'' @ [newline] @ ''b'' @ [newline] @ ''c'' @ [newline]"
  let ?h1 = "\<lparr> offset = 2, pending = ''b'' @ [newline] @ ''c'' @ [newline] \<rparr>"
  let ?h2 = "\<lparr> offset = 4, pending = ''c'' @ [newline] \<rparr>"
  have p1: "poll 1 (at_offset 0) (quiet ?abc 8192) = Some (Inr ([Stdout (''a'' @ [newline])], ?h1))"
    by (simp add: run_defs)
  have p2: "poll 1 ?h1 (quiet ''x'' 8192) = Some (Inr ([Stdout (''b'' @ [newline])], ?h2))"
    by (simp add: poll_pending_line newline_def)
  have p3: "poll 1 ?h2 (quiet ''x'' 8192) = Some (Inr ([Stdout (''c'' @ [newline])], at_offset 6))"
    by (simp add: poll_pending_line at_offset_def newline_def)
  have p4: "poll 1 (at_offset 6) (quiet ''x'' 8192) =
            Some (Inr ([Stderr truncated_msg], at_offset 0))"
    by (simp add: run_defs)
  have p5: "poll 1 (at_offset 0) (quiet ''x'' 8192) = Some (Inr ([Stdout ''x''], at_offset 1))"
    by (simp add: run_defs)
  have f5: "follow 1 (at_offset 0) [quiet ''x'' 8192] =
            Some ([Stdout ''x''], Inr (at_offset 1))"
    using p5 by simp
  have f4: "follow 1 (at_offset 6) [quiet ''x'' 8192, quiet ''x'' 8192] =
            Some ([Stderr truncated_msg, Stdout ''x''], Inr (at_offset 1))"
    using p4 f5 by simp
  have f3: "follow 1 ?h2 [quiet ''x'' 8192, quiet ''x'' 8192, quiet ''x'' 8192] =
            Some ([Stdout (''c'' @ [newline]), Stderr truncated_msg, Stdout ''x''],
                  Inr (at_offset 1))"
    using p3 f4 by simp
  have f2: "follow 1 ?h1
              [quiet ''x'' 8192, quiet ''x'' 8192, quiet ''x'' 8192, quiet ''x'' 8192] =
            Some ([Stdout (''b'' @ [newline]), Stdout (''c'' @ [newline]),
                   Stderr truncated_msg, Stdout ''x''], Inr (at_offset 1))"
    using p2 f3 by simp
  show ?thesis
    using p1 f2 by simp
qed

section \<open>The initial window\<close>

lemma lines_of_readline:
  "s \<noteq> [] \<Longrightarrow>
   lines_of s = readline_str s # lines_of (drop (length (readline_str s)) s)"
proof (induction s)
  case Nil
  then show ?case by simp
next
  case (Cons c cs)
  show ?case
  proof (cases "c = newline")
    case True
    then show ?thesis by simp
  next
    case False
    show ?thesis
    proof (cases "cs = []")
      case True
      with False show ?thesis by simp
    next
      case nonempty: False
      with Cons.IH have
        "lines_of cs = readline_str cs # lines_of (drop (length (readline_str cs)) cs)"
        by simp
      with False show ?thesis by simp
    qed
  qed
qed

lemma readlines_str_lines_of: "readlines_str s = lines_of s"
proof (induction s rule: readlines_str.induct)
  case (1 s)
  show ?case
  proof (cases "s = []")
    case True
    then show ?thesis by (simp add: readlines_str_Nil)
  next
    case False
    with "1.IH" show ?thesis
      by (simp add: readlines_str_Cons lines_of_readline [OF False])
  qed
qed

lemma complete_prefix_whole:
  "s = [] \<or> last s = newline \<Longrightarrow> complete_prefix s = s"
proof (cases "s = []")
  case True
  then show ?thesis by (simp add: complete_prefix_def)
next
  case False
  assume "s = [] \<or> last s = newline"
  with False have "last s = newline" by simp
  with False have "hd (rev s) = newline" by (simp add: hd_rev)
  moreover from False have "rev s \<noteq> []" by simp
  ultimately have "dropWhile (\<lambda>c. c \<noteq> newline) (rev s) = rev s"
    by (cases "rev s") simp_all
  then show ?thesis by (simp add: complete_prefix_def)
qed

lemma complete_lines_all:
  "s = [] \<or> last s = newline \<Longrightarrow> complete_lines s = readlines_str s"
  by (simp add: complete_lines_def complete_prefix_whole readlines_str_lines_of)

lemma slice_from_last_n: "0 < lines \<Longrightarrow> slice_from (- lines) xs = last_n (nat lines) xs"
  by (simp add: slice_from_negative last_n_def)

text \<open>
  C5, as the code has it. For every readable file of plain text (7-bit ASCII without
  carriage returns) and every positive count \<open>n\<close> the initial window writes exactly the
  last \<open>n\<close> of the lines that \<open>readlines()\<close> returns, in their order, and leaves the
  handle at the end of the file; these lines, put together, are the file, so an
  unterminated tail of the file counts as its last line and is written without a newline.
  If the file has \<open>M < n\<close> such lines, exactly these \<open>M\<close> lines are written. When the
  file is empty or ends in a newline, the lines are exactly its complete lines. Whatever
  the count and whatever the calls meet, every effect of a window that ends without an
  exception is a write to standard output: it does not alter the file.
\<close>

theorem initial_window_last_lines:
  assumes "0 < lines" and "plain c"
  shows "initial_window lines (Inr c0) (Inr c) =
           Some (Inr (map Stdout (last_n (nat lines) (readlines_str c)),
                      at_offset (length c))) \<and>
         concat (readlines_str c) = c \<and>
         (int (length (readlines_str c)) < lines \<longrightarrow>
            initial_window lines (Inr c0) (Inr c) =
              Some (Inr (map Stdout (readlines_str c), at_offset (length c)))) \<and>
         (c = [] \<or> last c = newline \<longrightarrow> readlines_str c = complete_lines c) \<and>
         (initial_window n' sk rd = Some (Inr (evs, hw)) \<longrightarrow> list_all is_stdout evs)"
proof (intro conjI impI)
  show w: "initial_window lines (Inr c0) (Inr c) =
        Some (Inr (map Stdout (last_n (nat lines) (readlines_str c)), at_offset (length c)))"
    using assms by (simp add: initial_window_positive last_n_def)
  show "concat (readlines_str c) = c"
    by (rule concat_readlines_str)
  {
    assume "int (length (readlines_str c)) < lines"
    then have "length (readlines_str c) - nat lines = 0" by linarith
    then have "last_n (nat lines) (readlines_str c) = readlines_str c"
      by (simp add: last_n_def)
    with w show "initial_window lines (Inr c0) (Inr c) =
                   Some (Inr (map Stdout (readlines_str c), at_offset (length c)))"
      by simp
  }
  {
    assume "c = [] \<or> last c = newline"
    then show "readlines_str c = complete_lines c"
      by (simp add: complete_lines_all)
  }
  {
    assume "initial_window n' sk rd = Some (Inr (evs, hw))"
    then show "list_all is_stdout evs"
      by (auto simp: initial_window_def readlines_def Let_def list_all_iff
               split: sum.splits if_splits option.splits)
  }
qed

theorem initial_window_last_lines_witness:
  "(0::int) < 5 \<and> plain (''a'' @ [newline] @ ''b'' @ [newline]) \<and>
   initial_window 5 (Inr (''a'' @ [newline] @ ''b'' @ [newline]))
       (Inr (''a'' @ [newline] @ ''b'' @ [newline])) =
     Some (Inr (map Stdout (readlines_str (''a'' @ [newline] @ ''b'' @ [newline])),
                at_offset (length (''a'' @ [newline] @ ''b'' @ [newline])))) \<and>
   readlines_str (''a'' @ [newline] @ ''b'' @ [newline]) =
     complete_lines (''a'' @ [newline] @ ''b'' @ [newline]) \<and>
   readlines_str (''a'' @ [newline] @ ''b'' @ [newline]) = [''a'' @ [newline], ''b'' @ [newline]] \<and>
   list_all is_stdout (map Stdout (readlines_str (''a'' @ [newline] @ ''b'' @ [newline])))"
proof -
  let ?c = "''a'' @ [newline] @ ''b'' @ [newline]"
  have h1: "(0::int) < 5" by simp
  have hp: "plain ?c" by (simp add: plain_def newline_def carriage_return_def)
  have rl: "readlines_str ?c = [''a'' @ [newline], ''b'' @ [newline]]"
    by (simp add: readlines_str_Cons readlines_str_Nil newline_def)
  then have h2: "int (length (readlines_str ?c)) < 5" by simp
  have h3: "?c = [] \<or> last ?c = newline" by simp
  show ?thesis
    using initial_window_last_lines
            [OF h1 hp, of ?c 5 "Inr ?c" "Inr ?c" "map Stdout (readlines_str ?c)"
               "at_offset (length ?c)"]
          h1 hp h2 h3 rl
    by blast
qed

text \<open>
  C5 as stated fails: the file holds the lines \<open>a\<close> and \<open>b\<close> and then \<open>c\<close> without
  a newline. With \<open>lines = 2\<close> the window writes \<open>b\<close> and the unterminated \<open>c\<close>; the
  last two complete lines of the file are \<open>a\<close> and \<open>b\<close>.
\<close>

theorem initial_window_counts_unterminated_tail:
  "initial_window 2 (Inr (''a'' @ [newline] @ ''b'' @ [newline] @ ''c''))
       (Inr (''a'' @ [newline] @ ''b'' @ [newline] @ ''c'')) =
     Some (Inr ([Stdout (''b'' @ [newline]), Stdout ''c''], at_offset 5)) \<and>
   last_n 2 (complete_lines (''a'' @ [newline] @ ''b'' @ [newline] @ ''c'')) =
     [''a'' @ [newline], ''b'' @ [newline]]"
proof -
  let ?c = "''a'' @ [newline] @ ''b'' @ [newline] @ ''c''"
  have pc: "plain ?c" by (simp add: plain_def newline_def carriage_return_def)
  have rl: "readlines_str ?c = [''a'' @ [newline], ''b'' @ [newline], ''c'']"
    by (simp add: readlines_str_Cons readlines_str_Nil newline_def)
  have w: "initial_window 2 (Inr ?c) (Inr ?c) =
           Some (Inr ([Stdout (''b'' @ [newline]), Stdout ''c''], at_offset 5))"
    using initial_window_positive [of 2 ?c ?c] pc rl by (simp add: at_offset_eq)
  have cl: "last_n 2 (complete_lines ?c) = [''a'' @ [newline], ''b'' @ [newline]]"
    by (simp add: complete_lines_def complete_prefix_def last_n_def newline_def)
  show ?thesis using w cl by simp
qed

section \<open>Starting at the end of the file\<close>


lemma tail_file_running:
  "at_exists env = Inr True \<Longrightarrow> at_open env = None \<Longrightarrow>
   initial_window lines (at_first_seek env) (at_readlines env) = Some (Inr (out0, h0)) \<Longrightarrow>
   follow interval h0 (polls env) = Some (out, Inr h) \<Longrightarrow>
   tail_file fn interval lines env =
     Some (out0 @ [Stderr (monitoring_msg fn)] @ out, Running h)"
  by (simp add: tail_file_def body_def)




section \<open>The cursor and the size of the file\<close>









section \<open>Where the loop starts\<close>

lemma initial_window_position:
  "plain c1 \<Longrightarrow>
   \<exists>out. initial_window lines (Inr c0) (Inr c1) =
           Some (Inr (out, at_offset (if lines > 0 then length c1 else length c0)))"
  by (simp add: initial_window_def readlines_whole seek_end_at_offset)

text \<open>
  C10, as the code has it. For every value of \<open>lines\<close> and every file of plain text
  (7-bit ASCII without carriage returns) the initial phase leaves the handle at the size
  seen by its last call: by the seek to the end when \<open>lines\<close> is zero or negative, by
  \<open>readlines()\<close> when \<open>lines\<close> is positive. For a file that does not change during the
  phase this is its size at open time. The loop then starts there, and while the file
  only grows everything it writes to standard output is text behind that size: nothing
  that was in the file at the start is written again.
\<close>

theorem initial_phase_ends_at_size:
  "(plain c \<longrightarrow>
      (\<exists>out. initial_window lines (Inr c) (Inr c) = Some (Inr (out, at_offset (length c))))) \<and>
   (plain c1 \<longrightarrow>
      (\<exists>out. initial_window lines (Inr c0) (Inr c1) =
              Some (Inr (out, at_offset (if lines > 0 then length c1 else length c0))))) \<and>
   (at_exists env = Inr True \<and> at_open env = None \<and> at_first_seek env = Inr c \<and>
    at_readlines env = Inr c \<and> polls env = quiets cks \<and>
    append_only c (map fst cks) \<and> plain (last (c # map fst cks)) \<longrightarrow>
      (\<exists>out0 out h'.
         initial_window lines (Inr c) (Inr c) = Some (Inr (out0, at_offset (length c))) \<and>
         tail_file fn interval lines env =
           Some (out0 @ [Stderr (monitoring_msg fn)] @ out, Running h') \<and>
         follow interval (at_offset (length c)) (quiets cks) = Some (out, Inr h') \<and>
         length c \<le> offset h' \<and>
         stdout_text out = drop (length c) (take (offset h') (last (c # map fst cks)))))"
proof (intro conjI impI)
  {
    assume "plain c"
    from initial_window_position [OF this, of lines c]
    show "\<exists>out. initial_window lines (Inr c) (Inr c) = Some (Inr (out, at_offset (length c)))"
      by simp
  }
  {
    assume "plain c1"
    then show "\<exists>out. initial_window lines (Inr c0) (Inr c1) =
          Some (Inr (out, at_offset (if lines > 0 then length c1 else length c0)))"
      by (rule initial_window_position)
  }
  {
    assume a: "at_exists env = Inr True \<and> at_open env = None \<and> at_first_seek env = Inr c \<and>
      at_readlines env = Inr c \<and> polls env = quiets cks \<and>
      append_only c (map fst cks) \<and> plain (last (c # map fst cks))"
    from a have e1: "at_exists env = Inr True" by blast
    from a have e2: "at_open env = None" by blast
    from a have e3: "at_first_seek env = Inr c" by blast
    from a have e4: "at_readlines env = Inr c" by blast
    from a have e5: "polls env = quiets cks" by blast
    from a have e6: "append_only c (map fst cks)" by blast
    from a have e7: "plain (last (c # map fst cks))" by blast
    have pc: "plain c" using append_only_last [OF e6] e7 by (rule plain_prefix)
    from initial_window_position [OF pc, of lines c] obtain out0 where
      iw: "initial_window lines (Inr c) (Inr c) = Some (Inr (out0, at_offset (length c)))"
      by auto
    have ag: "agrees (at_offset (length c)) c" by (simp add: agrees_at_offset)
    from follow_quiet_grow [OF ag e6 e7, of interval] obtain out h' where
      f: "follow interval (at_offset (length c)) (quiets cks) = Some (out, Inr h')" and
      b: "length c \<le> offset h'" and
      t: "stdout_text out = drop (length c) (take (offset h') (last (c # map fst cks)))"
      by (auto simp: at_offset_def)
    have iw': "initial_window lines (at_first_seek env) (at_readlines env) =
               Some (Inr (out0, at_offset (length c)))"
      unfolding e3 e4 by (rule iw)
    have f': "follow interval (at_offset (length c)) (polls env) = Some (out, Inr h')"
      unfolding e5 by (rule f)
    have "tail_file fn interval lines env =
          Some (out0 @ [Stderr (monitoring_msg fn)] @ out, Running h')"
      by (rule tail_file_running [OF e1 e2 iw' f'])
    then show "\<exists>out0 out h'.
         initial_window lines (Inr c) (Inr c) = Some (Inr (out0, at_offset (length c))) \<and>
         tail_file fn interval lines env =
           Some (out0 @ [Stderr (monitoring_msg fn)] @ out, Running h') \<and>
         follow interval (at_offset (length c)) (quiets cks) = Some (out, Inr h') \<and>
         length c \<le> offset h' \<and>
         stdout_text out = drop (length c) (take (offset h') (last (c # map fst cks)))"
      using iw f b t by blast
  }
qed

theorem initial_phase_ends_at_size_witness:
  "plain (''a'' @ [newline]) \<and>
   (\<exists>out. initial_window 1 (Inr (''a'' @ [newline])) (Inr (''a'' @ [newline])) =
      Some (Inr (out, at_offset (length (''a'' @ [newline]))))) \<and>
   (\<exists>out0 out h'.
      initial_window 1 (Inr (''a'' @ [newline])) (Inr (''a'' @ [newline])) =
        Some (Inr (out0, at_offset (length (''a'' @ [newline])))) \<and>
      tail_file ''log'' 1 1
        \<lparr> at_exists = Inr True, at_open = None, at_first_seek = Inr (''a'' @ [newline]),
          at_readlines = Inr (''a'' @ [newline]),
          polls = quiets [(''a'' @ [newline] @ ''b'' @ [newline], 4)] \<rparr> =
        Some (out0 @ [Stderr (monitoring_msg ''log'')] @ out, Running h') \<and>
      follow 1 (at_offset (length (''a'' @ [newline])))
          (quiets [(''a'' @ [newline] @ ''b'' @ [newline], 4)]) =
        Some (out, Inr h') \<and>
      length (''a'' @ [newline]) \<le> offset h' \<and>
      stdout_text out =
        drop (length (''a'' @ [newline]))
          (take (offset h') (last ((''a'' @ [newline]) #
             map fst [(''a'' @ [newline] @ ''b'' @ [newline], 4::nat)]))))"
proof -
  let ?c = "''a'' @ [newline]"
  let ?cks = "[(''a'' @ [newline] @ ''b'' @ [newline], 4::nat)]"
  let ?env = "\<lparr> at_exists = Inr True, at_open = None, at_first_seek = Inr ?c,
          at_readlines = Inr ?c, polls = quiets ?cks \<rparr>"
  have hp: "plain ?c" by (simp add: plain_def newline_def carriage_return_def)
  have h: "at_exists ?env = Inr True \<and> at_open ?env = None \<and> at_first_seek ?env = Inr ?c \<and>
      at_readlines ?env = Inr ?c \<and> polls ?env = quiets ?cks \<and>
      append_only ?c (map fst ?cks) \<and> plain (last (?c # map fst ?cks))"
    by (simp add: plain_def newline_def carriage_return_def)
  show ?thesis
    using initial_phase_ends_at_size [of ?c 1 ?c ?c ?env ?cks "''log''" 1] hp h by blast
qed

text \<open>
  C10 as stated fails, in both halves. With \<open>lines = 1\<close> the seek to the end sees the
  line \<open>a\<close> (size 2) and the file has grown by the line \<open>b\<close> when \<open>readlines()\<close>
  reads it: the handle is left at 4, not at the size at open time. And with \<open>lines = 1\<close>
  on the lines \<open>a\<close> and \<open>b\<close>, the file being cut to the line \<open>a\<close> afterwards, the
  session writes \<open>b\<close>, then the marker, then the line \<open>a\<close>, which was in the file at
  the start.
\<close>

theorem initial_position_and_replay:
  "initial_window 1 (Inr (''a'' @ [newline])) (Inr (''a'' @ [newline] @ ''b'' @ [newline])) =
     Some (Inr ([Stdout (''b'' @ [newline])], at_offset 4)) \<and>
   tail_file ''log'' 1 1
     \<lparr> at_exists = Inr True, at_open = None,
       at_first_seek = Inr (''a'' @ [newline] @ ''b'' @ [newline]),
       at_readlines = Inr (''a'' @ [newline] @ ''b'' @ [newline]),
       polls = quiets [(''a'' @ [newline], 0), (''a'' @ [newline], 0)] \<rparr> =
     Some ([Stdout (''b'' @ [newline]), Stderr (monitoring_msg ''log''), Stderr truncated_msg,
            Stdout (''a'' @ [newline])],
           Running (at_offset 2))"
proof -
  let ?c = "''a'' @ [newline] @ ''b'' @ [newline]"
  have pc: "plain ?c" by (simp add: plain_def newline_def carriage_return_def)
  have rl: "readlines_str ?c = [''a'' @ [newline], ''b'' @ [newline]]"
    by (simp add: readlines_str_Cons readlines_str_Nil newline_def)
  have iw: "initial_window 1 (Inr c0) (Inr ?c) =
            Some (Inr ([Stdout (''b'' @ [newline])], at_offset 4))" for c0
    using initial_window_positive [of 1 ?c c0] pc rl by (simp add: at_offset_eq)
  have f: "follow 1 (at_offset 4) (quiets [(''a'' @ [newline], 0), (''a'' @ [newline], 0)]) =
           Some ([Stderr truncated_msg, Stdout (''a'' @ [newline])], Inr (at_offset 2))"
    by (simp add: run_defs)
  have t: "tail_file ''log'' 1 1
     \<lparr> at_exists = Inr True, at_open = None, at_first_seek = Inr ?c, at_readlines = Inr ?c,
       polls = quiets [(''a'' @ [newline], 0), (''a'' @ [newline], 0)] \<rparr> =
     Some ([Stdout (''b'' @ [newline]), Stderr (monitoring_msg ''log''), Stderr truncated_msg,
            Stdout (''a'' @ [newline])],
           Running (at_offset 2))"
    unfolding tail_file_def body_def
    by (simp add: iw f del: append.simps)
  show ?thesis using iw [of "''a'' @ [newline]"] t by simp
qed

end
